theory Spec2Isabelle
  imports Complex_Main
begin

section \<open>Data model of solve.ts\<close>

text \<open>
  The script works on JavaScript values. A \<open>bigint\<close> is an unbounded integer (\<open>int\<close>).
  A string is a list of code units; the model covers code units below 256, so a
  character is a \<open>char\<close>. A \<open>number\<close> that reaches the decoder is either integer-valued
  or not (NaN, an infinity, a fraction); only that distinction matters to the code,
  because \<open>BigInt(base)\<close> raises on everything that is not an integer.
\<close>

record Point =
  x :: int
  y :: int

datatype number = Integer int | NotInteger

text \<open>
  Every exception the script can raise is a value: the \<open>Error\<close> thrown by the decoder
  with its message \<open>Invalid character 'c' for base b\<close>, the \<open>RangeError\<close> of
  \<open>BigInt(n)\<close> on a non-integer number, the \<open>RangeError\<close> of a bigint division by
  \<open>0n\<close>, the \<open>SyntaxError\<close> of \<open>BigInt(s)\<close> on a string that is no integer literal,
  and the \<open>TypeError\<close> of reading a property of \<open>undefined\<close>.
\<close>

datatype error =
    InvalidCharacter char int
  | RangeError_NotInteger
  | RangeError_DivisionByZero
  | SyntaxError_BigInt
  | TypeError_Undefined

section \<open>Base decoder\<close>

definition digits :: string where
  "digits = ''0123456789abcdefghijklmnopqrstuvwxyz''"

text \<open>
  \<open>String.prototype.toLowerCase\<close> on one code unit below 256: the letters A to Z and
  the Latin-1 capitals 192 to 222 (without the multiplication sign 215) move up by 32,
  every other code unit stays.
\<close>

definition toLowerCase :: "char \<Rightarrow> char" where
  "toLowerCase c =
     (let n = (of_char c :: nat)
      in if (65 \<le> n \<and> n \<le> 90) \<or> (192 \<le> n \<and> n \<le> 222 \<and> n \<noteq> 215)
         then char_of (n + 32) else c)"

text \<open>\<open>s.indexOf(c)\<close> for a one-character \<open>c\<close>: the first position, or \<open>-1\<close>.\<close>

fun indexOf_from :: "string \<Rightarrow> char \<Rightarrow> int \<Rightarrow> int" where
  "indexOf_from [] c i = -1"
| "indexOf_from (d # ds) c i = (if d = c then i else indexOf_from ds c (i + 1))"

definition indexOf :: "string \<Rightarrow> char \<Rightarrow> int" where
  "indexOf s c = indexOf_from s c 0"

text \<open>
  The loop of \<open>parseBigIntWithBase\<close> over the characters of \<open>value\<close>, with the
  accumulator \<open>result\<close>; the \<open>throw\<close> leaves the loop with the lower-cased character
  and the base in the message.
\<close>

fun parse_loop :: "string \<Rightarrow> int \<Rightarrow> int \<Rightarrow> error + int" where
  "parse_loop [] base result = Inr result"
| "parse_loop (c # cs) base result =
     (let char = toLowerCase c;
          digitValue = indexOf digits char
      in if digitValue = -1 \<or> digitValue \<ge> base
         then Inl (InvalidCharacter char base)
         else parse_loop cs base (result * base + digitValue))"

text \<open>\<open>BigInt(base)\<close> runs before the loop and raises when \<open>base\<close> is not an integer.\<close>

definition parseBigIntWithBase :: "string \<Rightarrow> number \<Rightarrow> error + int" where
  "parseBigIntWithBase val base =
     (case base of
        NotInteger \<Rightarrow> Inl RangeError_NotInteger
      | Integer b \<Rightarrow> parse_loop val b 0)"

subsection \<open>What the decoder is compared with\<close>

text \<open>
  The digit value of a character is the position of its lower-case form in the
  alphabet; a character is a digit of base \<open>b\<close> when that position exists and is
  below \<open>b\<close>.
\<close>

definition digitValue :: "char \<Rightarrow> int" where
  "digitValue c = indexOf digits (toLowerCase c)"

definition in_alphabet :: "char \<Rightarrow> bool" where
  "in_alphabet c = (toLowerCase c \<in> set digits)"

definition valid_digit :: "int \<Rightarrow> char \<Rightarrow> bool" where
  "valid_digit b c = (in_alphabet c \<and> digitValue c < b)"

text \<open>
  The value of a digit string as a big-endian positional numeral: the digit at
  position \<open>i\<close> of \<open>n\<close> digits weighs \<open>b ^ (n - 1 - i)\<close>.
\<close>

definition positional_value :: "int \<Rightarrow> string \<Rightarrow> int" where
  "positional_value b s =
     (\<Sum>i \<leftarrow> [0..<length s]. digitValue (s ! i) * b ^ (length s - 1 - i))"

section \<open>Interpolator\<close>

text \<open>
  Division of bigints rounds toward zero and raises a \<open>RangeError\<close> when the divisor
  is \<open>0n\<close>.
\<close>

definition bigint_quotient :: "int \<Rightarrow> int \<Rightarrow> int" where
  "bigint_quotient a b = sgn a * sgn b * (\<bar>a\<bar> div \<bar>b\<bar>)"

definition bigint_div :: "int \<Rightarrow> int \<Rightarrow> error + int" where
  "bigint_div a b = (if b = 0 then Inl RangeError_DivisionByZero else Inr (bigint_quotient a b))"

text \<open>
  The inner loop of \<open>findSecret\<close> over \<open>m\<close>, for a fixed \<open>j\<close>: the state is the pair
  \<open>(numerator, denominator)\<close>, both starting at \<open>1n\<close>.
\<close>

definition basis_step :: "Point list \<Rightarrow> nat \<Rightarrow> nat \<Rightarrow> int \<times> int \<Rightarrow> int \<times> int" where
  "basis_step points j m = (\<lambda>(numerator, denominator).
     if j \<noteq> m
     then (numerator * (0 - x (points ! m)),
           denominator * (x (points ! j) - x (points ! m)))
     else (numerator, denominator))"

definition basis_loop :: "Point list \<Rightarrow> nat \<Rightarrow> int \<times> int" where
  "basis_loop points j = fold (basis_step points j) [0..<length points] (1, 1)"

text \<open>
  The outer loop over \<open>j\<close> with the accumulator \<open>secret\<close>; the division is the only
  operation of the body that can raise, and it ends the loop.
\<close>

fun secret_loop :: "Point list \<Rightarrow> nat list \<Rightarrow> int \<Rightarrow> error + int" where
  "secret_loop points [] secret = Inr secret"
| "secret_loop points (j # js) secret =
     (let currentPoint = points ! j;
          (numerator, denominator) = basis_loop points j
      in case bigint_div (y currentPoint * numerator) denominator of
           Inl e \<Rightarrow> Inl e
         | Inr term \<Rightarrow> secret_loop points js (secret + term))"

definition findSecret :: "Point list \<Rightarrow> error + int" where
  "findSecret points = secret_loop points [0..<length points] 0"

subsection \<open>What the interpolator is compared with\<close>

text \<open>
  The formulas of the Lagrange basis at 0, as products over the indices \<open>m \<noteq> j\<close>,
  and the sum of the terms, each one quotient of the full product.
\<close>

definition numerator_at :: "Point list \<Rightarrow> nat \<Rightarrow> int" where
  "numerator_at ps j = (\<Prod>m \<in> {..<length ps} - {j}. - x (ps ! m))"

definition denominator_at :: "Point list \<Rightarrow> nat \<Rightarrow> int" where
  "denominator_at ps j = (\<Prod>m \<in> {..<length ps} - {j}. x (ps ! j) - x (ps ! m))"

definition term_at :: "Point list \<Rightarrow> nat \<Rightarrow> int" where
  "term_at ps j = bigint_quotient (y (ps ! j) * numerator_at ps j) (denominator_at ps j)"

text \<open>
  A polynomial with integer coefficients, lowest degree first, its value at a point, and
  the shares it gives at a list of abscissas.
\<close>

fun poly_eval :: "int list \<Rightarrow> int \<Rightarrow> int" where
  "poly_eval [] a = 0"
| "poly_eval (c # cs) a = c + a * poly_eval cs a"

definition shares_of :: "int list \<Rightarrow> int list \<Rightarrow> Point list" where
  "shares_of cs as = map (\<lambda>a. \<lparr>x = a, y = poly_eval cs a\<rparr>) as"

section \<open>Reading the test case and selecting the points\<close>

text \<open>
  The parsed JSON object is the list of its own properties in the order of their
  creation, which is the order of the members in the file; the keys of an object are
  pairwise different. A member is the \<open>keys\<close> object with its numbers \<open>n\<close> and \<open>k\<close>,
  or a share with its strings \<open>base\<close> and \<open>value\<close>.
\<close>

datatype member = Keys int int | Share string string

type_synonym TestCase = "(string \<times> member) list"

text \<open>
  White space of the string-to-number conversions, among the code units below 256:
  tab, line feed, vertical tab, form feed, carriage return, space, no-break space.
\<close>

definition isWhiteSpace :: "char \<Rightarrow> bool" where
  "isWhiteSpace c = ((of_char c :: nat) \<in> {9, 10, 11, 12, 13, 32, 160})"

text \<open>The value of a digit string in a radix, or nothing when a character is no digit of it.\<close>

fun literal_value :: "int \<Rightarrow> string \<Rightarrow> int \<Rightarrow> int option" where
  "literal_value radix [] acc = Some acc"
| "literal_value radix (c # cs) acc =
     (if valid_digit radix c then literal_value radix cs (acc * radix + digitValue c)
      else None)"

text \<open>
  A \<open>number\<close> is a double. The double nearest to a non-negative integer: below
  \<open>2 ^ 53\<close> the integer itself; above, the integer rounded to 53 significant bits,
  ties to the even mantissa; from \<open>2 ^ 1024\<close> on the result is \<open>Infinity\<close>, which is
  no integer.
\<close>

function bit_length :: "int \<Rightarrow> nat" where
  "bit_length n = (if n \<le> 0 then 0 else Suc (bit_length (n div 2)))"
  by pat_completeness auto
termination
  by (relation "measure nat") auto

definition toDouble :: "int \<Rightarrow> number" where
  "toDouble n =
     (if n < 9007199254740992 then Integer n
      else let e = bit_length n - 53;
               q = n div 2 ^ e;
               r = n mod 2 ^ e;
               half = 2 ^ (e - 1);
               rounded = (if r > half \<or> (r = half \<and> odd q) then q + 1 else q) * 2 ^ e
           in if rounded \<ge> 2 ^ 1024 then NotInteger else Integer rounded)"

text \<open>
  \<open>parseInt(s, 10)\<close>: leading white space and one sign are skipped, the longest
  prefix of decimal digits is read and the rest ignored; no digit gives NaN. The integer
  read becomes a number, so it is rounded to a double, and the sign is put on the result.
\<close>

definition parseInt10 :: "string \<Rightarrow> number" where
  "parseInt10 s =
     (let t = dropWhile isWhiteSpace s;
          (negative, u) =
            (case t of
               [] \<Rightarrow> (False, t)
             | c # r \<Rightarrow> if c = CHR ''-'' then (True, r)
                        else if c = CHR ''+'' then (False, r) else (False, t));
          z = takeWhile (valid_digit 10) u
      in case literal_value 10 z 0 of
           None \<Rightarrow> NotInteger
         | Some v \<Rightarrow> if z = [] then NotInteger
                     else case toDouble v of
                            NotInteger \<Rightarrow> NotInteger
                          | Integer d \<Rightarrow> Integer (if negative then - d else d))"

text \<open>
  \<open>BigInt(s)\<close> on a string: white space around the literal is dropped; the empty
  literal is \<open>0n\<close>; a literal is a decimal one with an optional sign, or a hexadecimal,
  octal or binary one with its prefix and no sign; anything else raises a
  \<open>SyntaxError\<close>.
\<close>

definition trim :: "string \<Rightarrow> string" where
  "trim s = rev (dropWhile isWhiteSpace (rev (dropWhile isWhiteSpace s)))"

definition unsigned_literal :: "int \<Rightarrow> string \<Rightarrow> error + int" where
  "unsigned_literal radix s =
     (if s = [] then Inl SyntaxError_BigInt
      else case literal_value radix s 0 of
             None \<Rightarrow> Inl SyntaxError_BigInt
           | Some v \<Rightarrow> Inr v)"

definition BigInt_string :: "string \<Rightarrow> error + int" where
  "BigInt_string s =
     (let t = trim s
      in if t = [] then Inr 0
         else if take 2 t = ''0x'' \<or> take 2 t = ''0X'' then unsigned_literal 16 (drop 2 t)
         else if take 2 t = ''0o'' \<or> take 2 t = ''0O'' then unsigned_literal 8 (drop 2 t)
         else if take 2 t = ''0b'' \<or> take 2 t = ''0B'' then unsigned_literal 2 (drop 2 t)
         else if hd t = CHR ''-'' then map_sum id uminus (unsigned_literal 10 (tl t))
         else if hd t = CHR ''+'' then unsigned_literal 10 (tl t)
         else unsigned_literal 10 t)"

text \<open>
  \<open>for (const key in data)\<close> visits the keys that are array indices (the decimal
  numerals without leading zero of the integers below \<open>2 ^ 32 - 1\<close>) first, in
  ascending numeric order, and then the other keys in the order of their creation.
\<close>

definition isArrayIndex :: "string \<Rightarrow> bool" where
  "isArrayIndex key =
     (key \<noteq> [] \<and> list_all (\<lambda>c. c \<in> set ''0123456789'') key \<and>
      (key = ''0'' \<or> hd key \<noteq> CHR ''0'') \<and>
      (case literal_value 10 key 0 of None \<Rightarrow> False | Some v \<Rightarrow> v < 4294967295))"

definition index_of_key :: "string \<Rightarrow> int" where
  "index_of_key key = (case literal_value 10 key 0 of None \<Rightarrow> 0 | Some v \<Rightarrow> v)"

definition forIn_order :: "TestCase \<Rightarrow> TestCase" where
  "forIn_order data =
     sort_key (\<lambda>(key, v). index_of_key key) (filter (\<lambda>(key, v). isArrayIndex key) data)
     @ filter (\<lambda>(key, v). \<not> isArrayIndex key) data"

text \<open>
  The fields \<open>base\<close> and \<open>value\<close> of a member. On the \<open>keys\<close> object both are
  \<open>undefined\<close>: \<open>parseInt(undefined, 10)\<close> is NaN, and the decoder raises on it
  before it looks at its first argument.
\<close>

fun member_base :: "member \<Rightarrow> number" where
  "member_base (Share base val) = parseInt10 base"
| "member_base (Keys n k) = NotInteger"

fun member_value :: "member \<Rightarrow> string" where
  "member_value (Share base val) = val"
| "member_value (Keys n k) = []"

text \<open>The body of the loop of \<open>getPointsFromJSON\<close>, over the keys in the order given.\<close>

fun points_loop :: "TestCase \<Rightarrow> Point list \<Rightarrow> error + Point list" where
  "points_loop [] points = Inr points"
| "points_loop ((key, m) # rest) points =
     (if key \<noteq> ''keys''
      then case BigInt_string key of
             Inl e \<Rightarrow> Inl e
           | Inr xv \<Rightarrow>
               (case parseBigIntWithBase (member_value m) (member_base m) of
                  Inl e \<Rightarrow> Inl e
                | Inr yv \<Rightarrow> points_loop rest (points @ [\<lparr>x = xv, y = yv\<rparr>]))
      else points_loop rest points)"

definition getPointsFromJSON :: "TestCase \<Rightarrow> error + Point list" where
  "getPointsFromJSON data = points_loop (forIn_order data) []"

text \<open>
  \<open>a.slice(0, e)\<close>: a negative end counts from the end of the array, an
  \<open>undefined\<close> end is the length.
\<close>

definition slice0 :: "'a list \<Rightarrow> int option \<Rightarrow> 'a list" where
  "slice0 a e =
     (let len = int (length a);
          final = (case e of
                     None \<Rightarrow> len
                   | Some r \<Rightarrow> if r < 0 then max (len + r) 0 else min r len)
      in take (nat final) a)"

text \<open>
  The \<open>try\<close> block of \<open>main\<close> on the parsed test case: the result is the report
  printed (the points used and the secret), or the error caught, in which case no
  secret is printed.
\<close>

fun keys_k :: "member \<Rightarrow> int option" where
  "keys_k (Keys n k) = Some k"
| "keys_k (Share base val) = None"

definition main :: "TestCase \<Rightarrow> error + (Point list \<times> int)" where
  "main testCase =
     (case map_of testCase ''keys'' of
        None \<Rightarrow> Inl TypeError_Undefined
      | Some keys \<Rightarrow>
          (let k = keys_k keys
           in case getPointsFromJSON testCase of
                Inl e \<Rightarrow> Inl e
              | Inr allPoints \<Rightarrow>
                  (let pointsToUse = slice0 allPoints k
                   in case findSecret pointsToUse of
                        Inl e \<Rightarrow> Inl e
                      | Inr secret \<Rightarrow> Inr (pointsToUse, secret))))"


section \<open>Properties of the base decoder\<close>

lemma indexOf_from_absent: "c \<notin> set ds \<Longrightarrow> indexOf_from ds c i = -1"
  by (induction ds arbitrary: i) auto

lemma indexOf_from_present:
  "c \<in> set ds \<Longrightarrow> i \<le> indexOf_from ds c i \<and> indexOf_from ds c i < i + int (length ds)"
proof (induction ds arbitrary: i)
  case Nil
  then show ?case by simp
next
  case (Cons d ds)
  show ?case
  proof (cases "d = c")
    case True
    then show ?thesis by simp
  next
    case False
    with Cons.prems have "c \<in> set ds" by simp
    from Cons.IH [OF this, of "i + 1"] False show ?thesis by simp
  qed
qed

lemma indexOf_minus_one: "indexOf ds c = -1 \<longleftrightarrow> c \<notin> set ds"
proof
  assume "indexOf ds c = -1"
  show "c \<notin> set ds"
  proof
    assume "c \<in> set ds"
    from indexOf_from_present [OF this, of 0] \<open>indexOf ds c = -1\<close> show False
      by (simp add: indexOf_def)
  qed
next
  assume "c \<notin> set ds"
  then show "indexOf ds c = -1"
    by (simp add: indexOf_def indexOf_from_absent)
qed

lemma indexOf_from_nth:
  "c \<in> set ds \<Longrightarrow> ds ! nat (indexOf_from ds c i - i) = c"
proof (induction ds arbitrary: i)
  case Nil
  then show ?case by simp
next
  case (Cons d ds)
  show ?case
  proof (cases "d = c")
    case True
    then show ?thesis by simp
  next
    case False
    with Cons.prems have mem: "c \<in> set ds" by simp
    from indexOf_from_present [OF mem, of "i + 1"]
    have "nat (indexOf_from ds c (i + 1) - i) = Suc (nat (indexOf_from ds c (i + 1) - (i + 1)))"
      by arith
    with Cons.IH [OF mem, of "i + 1"] False show ?thesis by simp
  qed
qed

lemma length_digits: "length digits = 36"
  by (simp add: digits_def)

lemma digitValue_range: "in_alphabet c \<Longrightarrow> 0 \<le> digitValue c \<and> digitValue c < 36"
  using indexOf_from_present [of "toLowerCase c" digits 0]
  by (simp add: in_alphabet_def digitValue_def indexOf_def length_digits)

lemma digitValue_position: "in_alphabet c \<Longrightarrow> digits ! nat (digitValue c) = toLowerCase c"
  using indexOf_from_nth [of "toLowerCase c" digits 0]
  by (simp add: in_alphabet_def digitValue_def indexOf_def)

lemma digitValue_undefined: "\<not> in_alphabet c \<longleftrightarrow> digitValue c = -1"
  by (simp add: in_alphabet_def digitValue_def indexOf_minus_one)

lemma rejected_iff: "(digitValue c = -1 \<or> digitValue c \<ge> b) \<longleftrightarrow> \<not> valid_digit b c"
  using digitValue_undefined [of c] by (auto simp: valid_digit_def)

lemma positional_value_Nil: "positional_value b [] = 0"
  by (simp add: positional_value_def)

lemma positional_value_Cons:
  "positional_value b (c # cs) = digitValue c * b ^ length cs + positional_value b cs"
proof -
  have "[0..<length (c # cs)] = 0 # map Suc [0..<length cs]"
    by (simp add: upt_conv_Cons map_Suc_upt del: upt_Suc)
  then show ?thesis
    by (simp add: positional_value_def comp_def del: upt_Suc)
qed

lemma parse_loop_char:
  "parse_loop s b acc =
     (case find (\<lambda>c. \<not> valid_digit b c) s of
        Some c \<Rightarrow> Inl (InvalidCharacter (toLowerCase c) b)
      | None \<Rightarrow> Inr (acc * b ^ length s + positional_value b s))"
proof (induction s arbitrary: acc)
  case Nil
  then show ?case by (simp add: positional_value_Nil)
next
  case (Cons c cs)
  show ?case
  proof (cases "valid_digit b c")
    case True
    with rejected_iff [of c b] have "\<not> (digitValue c = -1 \<or> digitValue c \<ge> b)" by simp
    then have "parse_loop (c # cs) b acc = parse_loop cs b (acc * b + digitValue c)"
      by (simp add: digitValue_def Let_def)
    with True show ?thesis
      by (simp add: Cons.IH positional_value_Cons algebra_simps split: option.splits)
  next
    case False
    with rejected_iff [of c b] have "digitValue c = -1 \<or> digitValue c \<ge> b" by simp
    then have "parse_loop (c # cs) b acc = Inl (InvalidCharacter (toLowerCase c) b)"
      by (auto simp add: digitValue_def Let_def)
    with False show ?thesis by simp
  qed
qed

lemma parse_accepts:
  "\<forall>c \<in> set s. valid_digit b c \<Longrightarrow>
   parseBigIntWithBase s (Integer b) = Inr (positional_value b s)"
proof -
  assume "\<forall>c \<in> set s. valid_digit b c"
  then have "find (\<lambda>c. \<not> valid_digit b c) s = None"
    by (simp add: find_None_iff)
  then show ?thesis
    by (simp add: parseBigIntWithBase_def parse_loop_char)
qed

lemma parse_rejects:
  assumes "\<exists>c \<in> set s. \<not> valid_digit b c"
  shows "\<exists>pre c post. s = pre @ c # post \<and> (\<forall>d \<in> set pre. valid_digit b d) \<and>
           \<not> valid_digit b c \<and>
           parseBigIntWithBase s (Integer b) = Inl (InvalidCharacter (toLowerCase c) b)"
proof -
  from assms have "find (\<lambda>c. \<not> valid_digit b c) s \<noteq> None"
    by (auto simp: find_None_iff)
  then obtain c where c: "find (\<lambda>c. \<not> valid_digit b c) s = Some c" by blast
  then obtain i where i: "i < length s" "\<not> valid_digit b (s ! i)" "c = s ! i"
    "\<forall>j < i. valid_digit b (s ! j)"
    by (auto simp: find_Some_iff)
  have split: "s = take i s @ c # drop (Suc i) s"
    using i(1,3) by (simp add: id_take_nth_drop)
  have pre: "\<forall>d \<in> set (take i s). valid_digit b d"
    using i(1,4) by (auto simp: in_set_conv_nth)
  have "parseBigIntWithBase s (Integer b) = Inl (InvalidCharacter (toLowerCase c) b)"
    using c by (simp add: parseBigIntWithBase_def parse_loop_char)
  with split pre i(2,3) show ?thesis by blast
qed


lemma parse_loop_case_insensitive:
  "map toLowerCase t = map toLowerCase s \<Longrightarrow> parse_loop t b acc = parse_loop s b acc"
proof (induction s arbitrary: t acc)
  case Nil
  then show ?case by simp
next
  case (Cons c cs)
  then obtain d ds where t: "t = d # ds" "toLowerCase d = toLowerCase c"
    "map toLowerCase ds = map toLowerCase cs"
    by (cases t) auto
  from Cons.IH [OF t(3)] t(1,2) show ?case by (simp add: Let_def)
qed

lemma invalid_digit_iff: "\<not> valid_digit b c \<longleftrightarrow> (\<not> in_alphabet c \<or> b \<le> digitValue c)"
  by (auto simp: valid_digit_def)

lemma valid_digit_high: "36 < b \<Longrightarrow> valid_digit b c \<longleftrightarrow> in_alphabet c"
  using digitValue_range [of c] by (auto simp: valid_digit_def)

lemma valid_digit_low: "b \<le> 0 \<Longrightarrow> \<not> valid_digit b c"
  using digitValue_range [of c] by (auto simp: valid_digit_def)

text \<open>A base that is no integer (NaN, for one) makes the decoder raise, whatever the string.\<close>

lemma decode_not_integer: "parseBigIntWithBase s NotInteger = Inl RangeError_NotInteger"
  by (simp add: parseBigIntWithBase_def)

section \<open>Claims about the base decoder\<close>

text \<open>
  Claim C9, as stated, fails: not for every base. A base field that is no numeral, such
  as \<open>x\<close>, is read by \<open>parseInt\<close> as NaN, and on NaN the decoder raises the
  \<open>RangeError\<close> of \<open>BigInt(base)\<close> before its loop, also for the empty string; end to
  end the error is caught and no secret is printed.
\<close>

theorem decode_empty_every_base_counterexample:
  "parseInt10 ''x'' = NotInteger \<and>
   parseBigIntWithBase [] (parseInt10 ''x'') = Inl RangeError_NotInteger \<and>
   main [(''keys'', Keys 1 1), (''1'', Share ''x'' [])] = Inl RangeError_NotInteger"
  by code_simp

text \<open>
  Claim C9, amended. For every integer base, inside or outside 2 to 36, decoding the
  empty string succeeds and returns 0: the loop body never runs and the accumulator
  keeps its initial value. For a base that is no integer the decoder raises the
  \<open>RangeError\<close> of \<open>BigInt(base)\<close>.
\<close>

theorem decode_empty:
  "parseBigIntWithBase [] (Integer b) = Inr 0 \<and>
   parseBigIntWithBase [] NotInteger = Inl RangeError_NotInteger"
  by (simp add: parseBigIntWithBase_def)

theorem decode_empty_witness:
  "parseBigIntWithBase [] (Integer 37) = Inr 0 \<and>
   parseBigIntWithBase [] NotInteger = Inl RangeError_NotInteger"
  by (rule decode_empty [of 37])

text \<open>
  Claim C2. For a base from 2 to 36 and a non-empty string whose characters all have an
  alphabet position below the base, the decoder returns the value of the string read as
  a big-endian numeral in that base, over unbounded integers; the result depends on the
  characters only up to their case: every string with the same lower-case form decodes
  to the same value.
\<close>

theorem decode_positional:
  assumes "s \<noteq> []" and "2 \<le> b" and "b \<le> 36"
    and "\<forall>c \<in> set s. in_alphabet c \<and> digitValue c < b"
  shows "parseBigIntWithBase s (Integer b) = Inr (positional_value b s) \<and>
         (\<forall>t. map toLowerCase t = map toLowerCase s \<longrightarrow>
              parseBigIntWithBase t (Integer b) = Inr (positional_value b s))"
proof -
  from assms(4) have "\<forall>c \<in> set s. valid_digit b c"
    by (simp add: valid_digit_def)
  then have accepted: "parseBigIntWithBase s (Integer b) = Inr (positional_value b s)"
    by (rule parse_accepts)
  have "parseBigIntWithBase t (Integer b) = Inr (positional_value b s)"
    if "map toLowerCase t = map toLowerCase s" for t
  proof -
    from that have "parse_loop t b 0 = parse_loop s b 0"
      by (rule parse_loop_case_insensitive)
    with accepted show ?thesis
      by (simp add: parseBigIntWithBase_def)
  qed
  with accepted show ?thesis by blast
qed

theorem decode_positional_witness:
  "parseBigIntWithBase ''aed7'' (Integer 16) = Inr 44759 \<and>
   parseBigIntWithBase ''AeD7'' (Integer 16) = Inr 44759 \<and>
   parseBigIntWithBase ''111'' (Integer 2) = Inr 7"
proof -
  have h16: "\<forall>c \<in> set ''aed7''. in_alphabet c \<and> digitValue c < 16"
    by (simp add: in_alphabet_def digitValue_def toLowerCase_def digits_def indexOf_def)
  have h2: "\<forall>c \<in> set ''111''. in_alphabet c \<and> digitValue c < 2"
    by (simp add: in_alphabet_def digitValue_def toLowerCase_def digits_def indexOf_def)
  have v16: "positional_value 16 ''aed7'' = 44759"
    by code_simp
  have v2: "positional_value 2 ''111'' = 7"
    by code_simp
  have low: "map toLowerCase ''AeD7'' = map toLowerCase ''aed7''"
    by code_simp
  have d16: "parseBigIntWithBase ''aed7'' (Integer 16) = Inr (positional_value 16 ''aed7'') \<and>
         (\<forall>t. map toLowerCase t = map toLowerCase ''aed7'' \<longrightarrow>
              parseBigIntWithBase t (Integer 16) = Inr (positional_value 16 ''aed7''))"
    by (rule decode_positional [OF _ _ _ h16]) simp_all
  have d2: "parseBigIntWithBase ''111'' (Integer 2) = Inr (positional_value 2 ''111'') \<and>
         (\<forall>t. map toLowerCase t = map toLowerCase ''111'' \<longrightarrow>
              parseBigIntWithBase t (Integer 2) = Inr (positional_value 2 ''111''))"
    by (rule decode_positional [OF _ _ _ h2]) simp_all
  from d16 have a: "parseBigIntWithBase ''aed7'' (Integer 16) = Inr 44759"
    unfolding v16 by (rule conjunct1)
  from d16 have "map toLowerCase ''AeD7'' = map toLowerCase ''aed7'' \<longrightarrow>
      parseBigIntWithBase ''AeD7'' (Integer 16) = Inr 44759"
    unfolding v16 by blast
  from this low have b: "parseBigIntWithBase ''AeD7'' (Integer 16) = Inr 44759"
    by (rule mp)
  from d2 have c: "parseBigIntWithBase ''111'' (Integer 2) = Inr 7"
    unfolding v2 by (rule conjunct1)
  from a b c show ?thesis by (intro conjI)
qed

text \<open>
  Claim C7. For a base from 2 to 36, whenever the string contains a character outside
  the alphabet or with a digit value not below the base, the decoder fails with the
  invalid-character error. The error carries the base and the (lower-cased) first such
  character: every character before it is a digit of the base.
\<close>

theorem decode_rejects:
  assumes "2 \<le> b" and "b \<le> 36"
    and "\<exists>c \<in> set s. \<not> in_alphabet c \<or> b \<le> digitValue c"
  shows "\<exists>pre c post. s = pre @ c # post \<and>
           (\<forall>d \<in> set pre. in_alphabet d \<and> digitValue d < b) \<and>
           (\<not> in_alphabet c \<or> b \<le> digitValue c) \<and>
           parseBigIntWithBase s (Integer b) = Inl (InvalidCharacter (toLowerCase c) b)"
proof -
  from assms(3) have "\<exists>c \<in> set s. \<not> valid_digit b c"
    by (simp add: invalid_digit_iff)
  from parse_rejects [OF this]
  obtain pre c post where split: "s = pre @ c # post"
    and pre: "\<forall>d \<in> set pre. valid_digit b d" and c: "\<not> valid_digit b c"
    and failed: "parseBigIntWithBase s (Integer b) = Inl (InvalidCharacter (toLowerCase c) b)"
    by blast
  from pre have "\<forall>d \<in> set pre. in_alphabet d \<and> digitValue d < b"
    by (simp add: valid_digit_def)
  moreover from c have "\<not> in_alphabet c \<or> b \<le> digitValue c"
    by (simp add: invalid_digit_iff)
  ultimately show ?thesis
    using split failed by blast
qed

theorem decode_rejects_witness:
  "(\<exists>c \<in> set ''a''. \<not> in_alphabet c \<or> 10 \<le> digitValue c) \<and>
   parseBigIntWithBase ''a'' (Integer 10) = Inl (InvalidCharacter CHR ''a'' 10)"
proof -
  have h: "\<exists>c \<in> set ''a''. \<not> in_alphabet c \<or> 10 \<le> digitValue c"
    by (simp add: in_alphabet_def digitValue_def toLowerCase_def digits_def indexOf_def)
  have "\<exists>pre c post. ''a'' = pre @ c # post \<and>
           (\<forall>d \<in> set pre. in_alphabet d \<and> digitValue d < 10) \<and>
           (\<not> in_alphabet c \<or> 10 \<le> digitValue c) \<and>
           parseBigIntWithBase ''a'' (Integer 10) = Inl (InvalidCharacter (toLowerCase c) 10)"
    by (rule decode_rejects [OF _ _ h]) simp_all
  then obtain pre c post where split: "''a'' = pre @ c # post"
    and failed: "parseBigIntWithBase ''a'' (Integer 10) = Inl (InvalidCharacter (toLowerCase c) 10)"
    by blast
  from split have "c = CHR ''a''"
    by (cases pre) simp_all
  moreover have "toLowerCase CHR ''a'' = CHR ''a''"
    by code_simp
  ultimately have "parseBigIntWithBase ''a'' (Integer 10) = Inl (InvalidCharacter CHR ''a'' 10)"
    using failed by simp
  with h show ?thesis by (intro conjI)
qed

text \<open>
  Claim C6, as stated, fails: the decoder has no check of the base. In base 37 the
  string \<open>10\<close> decodes to 37, and the test case with that single share prints the
  secret 37.
\<close>

theorem decode_base_37_counterexample:
  "\<not> (2 \<le> (37::int) \<and> (37::int) \<le> 36) \<and>
   parseBigIntWithBase ''10'' (Integer 37) = Inr 37 \<and>
   main [(''keys'', Keys 1 1), (''1'', Share ''37'' ''10'')] = Inr ([\<lparr>x = 1, y = 37\<rparr>], 37)"
  by code_simp

text \<open>
  Claim C6, amended. For an integer base outside 2 to 36 the decoder behaves as for any
  other base. A string whose characters all have an alphabet position below the base
  decodes to its positional value; a string with another character fails with the
  invalid-character error, which names such a character and the base. So above 36 every
  string over the alphabet decodes, and at 0 or below every non-empty string fails on
  its first character. End to end the secret is printed as for any other base: the test
  case with the single share of base 37 and value \<open>10\<close> prints 37.
\<close>

theorem decode_base_unchecked:
  assumes "b < 2 \<or> 36 < b"
  shows "((\<forall>c \<in> set s. in_alphabet c \<and> digitValue c < b) \<longrightarrow>
            parseBigIntWithBase s (Integer b) = Inr (positional_value b s)) \<and>
         ((\<exists>c \<in> set s. \<not> in_alphabet c \<or> b \<le> digitValue c) \<longrightarrow>
            (\<exists>c \<in> set s. (\<not> in_alphabet c \<or> b \<le> digitValue c) \<and>
               parseBigIntWithBase s (Integer b) = Inl (InvalidCharacter (toLowerCase c) b))) \<and>
         (36 < b \<and> (\<forall>c \<in> set s. in_alphabet c) \<longrightarrow>
            parseBigIntWithBase s (Integer b) = Inr (positional_value b s)) \<and>
         (b \<le> 0 \<and> s \<noteq> [] \<longrightarrow>
            parseBigIntWithBase s (Integer b) = Inl (InvalidCharacter (toLowerCase (hd s)) b)) \<and>
         main [(''keys'', Keys 1 1), (''1'', Share ''37'' ''10'')] = Inr ([\<lparr>x = 1, y = 37\<rparr>], 37)"
proof (intro conjI impI)
  assume "\<forall>c \<in> set s. in_alphabet c \<and> digitValue c < b"
  then have "\<forall>c \<in> set s. valid_digit b c" by (simp add: valid_digit_def)
  then show "parseBigIntWithBase s (Integer b) = Inr (positional_value b s)"
    by (rule parse_accepts)
next
  assume "\<exists>c \<in> set s. \<not> in_alphabet c \<or> b \<le> digitValue c"
  then have "\<exists>c \<in> set s. \<not> valid_digit b c"
    by (simp add: invalid_digit_iff)
  from parse_rejects [OF this]
  obtain pre c post where "s = pre @ c # post" "\<not> valid_digit b c"
    "parseBigIntWithBase s (Integer b) = Inl (InvalidCharacter (toLowerCase c) b)"
    by blast
  then have "c \<in> set s \<and> (\<not> in_alphabet c \<or> b \<le> digitValue c) \<and>
      parseBigIntWithBase s (Integer b) = Inl (InvalidCharacter (toLowerCase c) b)"
    by (simp add: invalid_digit_iff)
  then show "\<exists>c \<in> set s. (\<not> in_alphabet c \<or> b \<le> digitValue c) \<and>
          parseBigIntWithBase s (Integer b) = Inl (InvalidCharacter (toLowerCase c) b)"
    by blast
next
  assume "36 < b \<and> (\<forall>c \<in> set s. in_alphabet c)"
  then have "\<forall>c \<in> set s. valid_digit b c" by (simp add: valid_digit_high)
  then show "parseBigIntWithBase s (Integer b) = Inr (positional_value b s)"
    by (rule parse_accepts)
next
  assume "b \<le> 0 \<and> s \<noteq> []"
  then obtain c cs where s: "s = c # cs" and b: "b \<le> 0" by (cases s) auto
  from valid_digit_low [OF b, of c] rejected_iff [of c b]
  have "digitValue c = -1 \<or> digitValue c \<ge> b" by simp
  then show "parseBigIntWithBase s (Integer b) = Inl (InvalidCharacter (toLowerCase (hd s)) b)"
    by (auto simp: s parseBigIntWithBase_def digitValue_def Let_def)
next
  show "main [(''keys'', Keys 1 1), (''1'', Share ''37'' ''10'')] = Inr ([\<lparr>x = 1, y = 37\<rparr>], 37)"
    by code_simp
qed

theorem decode_base_unchecked_witness:
  "((37::int) < 2 \<or> (36::int) < 37) \<and> in_alphabet CHR ''1'' \<and> in_alphabet CHR ''z'' \<and>
   parseBigIntWithBase ''1z'' (Integer 37) = Inr 72 \<and>
   parseBigIntWithBase ''0'' (Integer 0) = Inl (InvalidCharacter CHR ''0'' 0)"
proof -
  have r: "(37::int) < 2 \<or> (36::int) < 37" by simp
  have h: "(36::int) < 37 \<and> (\<forall>c \<in> set ''1z''. in_alphabet c)"
    by (simp add: in_alphabet_def toLowerCase_def digits_def)
  have v: "positional_value 37 ''1z'' = 72" by code_simp
  have z: "(0::int) < 2 \<or> (36::int) < 0" by simp
  have l: "toLowerCase (hd ''0'') = CHR ''0''" by code_simp
  from decode_base_unchecked [OF r, of "''1z''"]
  have "36 < (37::int) \<and> (\<forall>c \<in> set ''1z''. in_alphabet c) \<longrightarrow>
            parseBigIntWithBase ''1z'' (Integer 37) = Inr (positional_value 37 ''1z'')"
    by blast
  from this h have a: "parseBigIntWithBase ''1z'' (Integer 37) = Inr 72"
    unfolding v by (rule mp)
  from decode_base_unchecked [OF z, of "''0''"]
  have "(0::int) \<le> 0 \<and> ''0'' \<noteq> [] \<longrightarrow>
            parseBigIntWithBase ''0'' (Integer 0) = Inl (InvalidCharacter (toLowerCase (hd ''0'')) 0)"
    by blast
  then have b: "parseBigIntWithBase ''0'' (Integer 0) = Inl (InvalidCharacter CHR ''0'' 0)"
    unfolding l by simp
  from h have "in_alphabet CHR ''1''" and "in_alphabet CHR ''z''" by simp_all
  with r a b show ?thesis by (intro conjI)
qed

section \<open>Properties of the interpolator\<close>

text \<open>
  The inner loop computes the two products over the indices other than \<open>j\<close>; the
  outer loop fails exactly when one of the denominators is 0, which happens exactly when
  two points share their abscissa, and otherwise returns the sum of the quotients.
\<close>

lemma fold_basis_step:
  "fold (basis_step ps j) ms (a, b) =
     (a * (\<Prod>m \<leftarrow> filter (\<lambda>m. m \<noteq> j) ms. - x (ps ! m)),
      b * (\<Prod>m \<leftarrow> filter (\<lambda>m. m \<noteq> j) ms. x (ps ! j) - x (ps ! m)))"
  by (induction ms arbitrary: a b) (auto simp: basis_step_def mult.assoc)

lemma others_set: "set (filter (\<lambda>m. m \<noteq> j) [0..<n]) = {..<n} - {j}"
  by auto

lemma prod_others:
  "(\<Prod>m \<leftarrow> filter (\<lambda>m. m \<noteq> j) [0..<n]. g m) = (\<Prod>m \<in> {..<n} - {j}. g m)"
proof -
  have "distinct (filter (\<lambda>m. m \<noteq> j) [0..<n])" by simp
  from prod.distinct_set_conv_list [OF this, of g] show ?thesis
    by (simp only: others_set)
qed

lemma basis_loop_eq: "basis_loop ps j = (numerator_at ps j, denominator_at ps j)"
  by (simp add: basis_loop_def fold_basis_step prod_others numerator_at_def denominator_at_def)

lemma secret_loop_char:
  "secret_loop ps js acc =
     (if \<exists>j \<in> set js. denominator_at ps j = 0 then Inl RangeError_DivisionByZero
      else Inr (acc + (\<Sum>j \<leftarrow> js. term_at ps j)))"
proof (induction js arbitrary: acc)
  case Nil
  then show ?case by simp
next
  case (Cons j js)
  show ?case
  proof (cases "denominator_at ps j = 0")
    case True
    then show ?thesis
      by (simp add: basis_loop_eq bigint_div_def)
  next
    case False
    then have "secret_loop ps (j # js) acc = secret_loop ps js (acc + term_at ps j)"
      by (simp add: basis_loop_eq bigint_div_def term_at_def)
    with False show ?thesis
      by (simp add: Cons.IH add.assoc)
  qed
qed

lemma denominator_zero_iff:
  "denominator_at ps j = 0 \<longleftrightarrow> (\<exists>m < length ps. m \<noteq> j \<and> x (ps ! m) = x (ps ! j))"
proof -
  have "denominator_at ps j = 0 \<longleftrightarrow> (\<exists>m \<in> {..<length ps} - {j}. x (ps ! j) - x (ps ! m) = 0)"
    by (simp add: denominator_at_def)
  also have "\<dots> \<longleftrightarrow> (\<exists>m < length ps. m \<noteq> j \<and> x (ps ! m) = x (ps ! j))"
    by (auto simp: Bex_def)
  finally show ?thesis .
qed

lemma collision_iff:
  "(\<exists>j \<in> set [0..<length ps]. denominator_at ps j = 0) \<longleftrightarrow> \<not> distinct (map x ps)"
proof
  assume "\<exists>j \<in> set [0..<length ps]. denominator_at ps j = 0"
  then obtain j m where "j < length ps" "m < length ps" "m \<noteq> j" "x (ps ! m) = x (ps ! j)"
    by (auto simp: denominator_zero_iff)
  then show "\<not> distinct (map x ps)"
    by (auto simp: distinct_conv_nth)
next
  assume "\<not> distinct (map x ps)"
  then obtain j m where "j < length ps" "m < length ps" "m \<noteq> j" "x (ps ! m) = x (ps ! j)"
    by (auto simp: distinct_conv_nth)
  then show "\<exists>j \<in> set [0..<length ps]. denominator_at ps j = 0"
    by (auto simp: denominator_zero_iff)
qed

lemma findSecret_char:
  "findSecret ps =
     (if distinct (map x ps) then Inr (\<Sum>j < length ps. term_at ps j)
      else Inl RangeError_DivisionByZero)"
proof -
  have "(\<Sum>j \<leftarrow> [0..<length ps]. term_at ps j) = (\<Sum>j < length ps. term_at ps j)"
    by (simp add: interv_sum_list_conv_sum_set_nat atLeast0LessThan)
  then show ?thesis
    unfolding findSecret_def secret_loop_char collision_iff by simp
qed

lemma bigint_quotient_times:
  "bigint_quotient n d * d = sgn n * ((\<bar>n\<bar> div \<bar>d\<bar>) * \<bar>d\<bar>)"
proof -
  have "bigint_quotient n d * d = sgn n * ((\<bar>n\<bar> div \<bar>d\<bar>) * (sgn d * d))"
    by (simp add: bigint_quotient_def mult_ac)
  also have "sgn d * d = \<bar>d\<bar>"
    by (simp add: abs_sgn mult.commute)
  finally show ?thesis .
qed

lemma bigint_quotient_remainder:
  "n - bigint_quotient n d * d = sgn n * (\<bar>n\<bar> mod \<bar>d\<bar>)"
proof -
  have "n = sgn n * \<bar>n\<bar>"
    by (simp add: sgn_mult_abs)
  also have "\<bar>n\<bar> = (\<bar>n\<bar> div \<bar>d\<bar>) * \<bar>d\<bar> + \<bar>n\<bar> mod \<bar>d\<bar>"
    by simp
  finally have "n = sgn n * ((\<bar>n\<bar> div \<bar>d\<bar>) * \<bar>d\<bar>) + sgn n * (\<bar>n\<bar> mod \<bar>d\<bar>)"
    by (simp only: distrib_left)
  then show ?thesis
    by (simp add: bigint_quotient_times)
qed

lemma bigint_quotient_exact: "d dvd n \<Longrightarrow> bigint_quotient n d * d = n"
proof -
  assume "d dvd n"
  then have "\<bar>n\<bar> mod \<bar>d\<bar> = 0" by simp
  with bigint_quotient_remainder [of n d] show ?thesis by simp
qed

lemma bigint_quotient_truncates:
  assumes "d \<noteq> 0"
  shows "\<bar>bigint_quotient n d * d\<bar> \<le> \<bar>n\<bar> \<and> \<bar>n - bigint_quotient n d * d\<bar> < \<bar>d\<bar>"
proof
  have "0 \<le> \<bar>n\<bar> div \<bar>d\<bar>"
    by (simp add: div_int_pos_iff)
  then have "\<bar>bigint_quotient n d * d\<bar> = \<bar>sgn n\<bar> * ((\<bar>n\<bar> div \<bar>d\<bar>) * \<bar>d\<bar>)"
    by (simp add: bigint_quotient_times abs_mult)
  also have "\<dots> \<le> (\<bar>n\<bar> div \<bar>d\<bar>) * \<bar>d\<bar>"
    by (cases "n = 0") (simp_all add: abs_sgn_eq)
  also have "\<dots> \<le> \<bar>n\<bar>"
  proof -
    from assms have "0 \<le> \<bar>n\<bar> mod \<bar>d\<bar>" by simp
    with div_mult_mod_eq [of "\<bar>n\<bar>" "\<bar>d\<bar>"] show ?thesis by linarith
  qed
  finally show "\<bar>bigint_quotient n d * d\<bar> \<le> \<bar>n\<bar>" .
next
  have "\<bar>n - bigint_quotient n d * d\<bar> = \<bar>sgn n\<bar> * (\<bar>n\<bar> mod \<bar>d\<bar>)"
    using assms by (simp add: bigint_quotient_remainder abs_mult)
  also have "\<dots> \<le> \<bar>n\<bar> mod \<bar>d\<bar>"
    using assms by (cases "n = 0") (simp_all add: abs_sgn_eq)
  also have "\<dots> < \<bar>d\<bar>"
    using assms by simp
  finally show "\<bar>n - bigint_quotient n d * d\<bar> < \<bar>d\<bar>" .
qed

subsection \<open>Exact divisions give the constant term\<close>

text \<open>
  Over the reals the Lagrange sum of a polynomial of degree below \<open>k\<close> at \<open>k\<close>
  distinct points is the polynomial itself: the difference is a polynomial of degree
  below \<open>k\<close> with \<open>k\<close> roots. Hence, whenever every division of the interpolator
  is exact, its result is the constant term of the polynomial the shares come from.
\<close>

lemma polyfun_const:
  fixes a :: real
  shows "\<exists>c. \<forall>t. a = (\<Sum>i\<le>n. c i * t ^ i)"
proof (intro exI allI)
  fix t :: real
  have "(\<Sum>i\<le>n. (if i = 0 then a else 0) * t ^ i) = (\<Sum>i\<le>n. if i = 0 then a else 0)"
    by (rule sum.cong) simp_all
  also have "\<dots> = a"
    by simp
  finally show "a = (\<Sum>i\<le>n. (if i = 0 then a else 0) * t ^ i)" by simp
qed

lemma polyfun_add:
  fixes p q :: "real \<Rightarrow> real"
  assumes "\<exists>c. \<forall>t. p t = (\<Sum>i\<le>n. c i * t ^ i)" and "\<exists>c. \<forall>t. q t = (\<Sum>i\<le>n. c i * t ^ i)"
  shows "\<exists>c. \<forall>t. p t + q t = (\<Sum>i\<le>n. c i * t ^ i)"
proof -
  from assms obtain c d where "\<forall>t. p t = (\<Sum>i\<le>n. c i * t ^ i)" "\<forall>t. q t = (\<Sum>i\<le>n. d i * t ^ i)"
    by blast
  then have "\<forall>t. p t + q t = (\<Sum>i\<le>n. (c i + d i) * t ^ i)"
    by (simp add: distrib_right sum.distrib)
  then show ?thesis by (rule exI [of _ "\<lambda>i. c i + d i"])
qed

lemma polyfun_scale:
  fixes p :: "real \<Rightarrow> real"
  assumes "\<exists>c. \<forall>t. p t = (\<Sum>i\<le>n. c i * t ^ i)"
  shows "\<exists>c. \<forall>t. a * p t = (\<Sum>i\<le>n. c i * t ^ i)"
proof -
  from assms obtain c where "\<forall>t. p t = (\<Sum>i\<le>n. c i * t ^ i)" by blast
  then have "\<forall>t. a * p t = (\<Sum>i\<le>n. (a * c i) * t ^ i)"
    by (simp add: sum_distrib_left mult.assoc)
  then show ?thesis by (rule exI [of _ "\<lambda>i. a * c i"])
qed

lemma polyfun_linear_times:
  fixes p :: "real \<Rightarrow> real"
  assumes "\<exists>c. \<forall>t. p t = (\<Sum>i\<le>n. c i * t ^ i)"
  shows "\<exists>c. \<forall>t. (t - r) * p t = (\<Sum>i\<le>Suc n. c i * t ^ i)"
proof -
  from assms obtain c where c: "\<And>t. p t = (\<Sum>i\<le>n. c i * t ^ i)" by blast
  define b where "b i = (if i = 0 then 0 else c (i - 1)) - r * (if i \<le> n then c i else 0)" for i
  have "(t - r) * p t = (\<Sum>i\<le>Suc n. b i * t ^ i)" for t
  proof -
    have "(\<Sum>i\<le>Suc n. (if i = 0 then 0 else c (i - 1)) * t ^ i) = (\<Sum>i\<le>n. c i * t ^ Suc i)"
      by (simp add: sum.atMost_Suc_shift del: sum.atMost_Suc power_Suc)
    also have "\<dots> = t * p t"
      by (simp add: c sum_distrib_left mult_ac)
    finally have first: "(\<Sum>i\<le>Suc n. (if i = 0 then 0 else c (i - 1)) * t ^ i) = t * p t" .
    have "(\<Sum>i\<le>Suc n. (if i \<le> n then c i else 0) * t ^ i) = (\<Sum>i\<le>n. (if i \<le> n then c i else 0) * t ^ i)"
      by simp
    also have "\<dots> = (\<Sum>i\<le>n. c i * t ^ i)"
      by (rule sum.cong) simp_all
    finally have second: "(\<Sum>i\<le>Suc n. (if i \<le> n then c i else 0) * t ^ i) = p t"
      by (simp add: c)
    have "(\<Sum>i\<le>Suc n. b i * t ^ i) =
            (\<Sum>i\<le>Suc n. (if i = 0 then 0 else c (i - 1)) * t ^ i)
            - r * (\<Sum>i\<le>Suc n. (if i \<le> n then c i else 0) * t ^ i)"
      unfolding b_def sum_distrib_left sum_subtractf [symmetric]
      by (rule sum.cong) (simp_all add: algebra_simps)
    also have "\<dots> = (t - r) * p t"
      unfolding first second by (simp add: algebra_simps)
    finally show ?thesis by simp
  qed
  then show ?thesis by blast
qed

lemma polyfun_prod_linear:
  fixes a :: "nat \<Rightarrow> real"
  assumes "finite S"
  shows "\<exists>c. \<forall>t. (\<Prod>m\<in>S. t - a m) = (\<Sum>i\<le>card S. c i * t ^ i)"
  using assms
proof (induction S rule: finite_induct)
  case empty
  from polyfun_const [of 1 0] show ?case by simp
next
  case (insert m S)
  from polyfun_linear_times [OF insert.IH, of "a m"] insert.hyps show ?case
    by simp
qed

lemma polyfun_sum:
  fixes p :: "nat \<Rightarrow> real \<Rightarrow> real"
  assumes "finite J" and "\<And>j. j \<in> J \<Longrightarrow> \<exists>c. \<forall>t. p j t = (\<Sum>i\<le>n. c i * t ^ i)"
  shows "\<exists>c. \<forall>t. (\<Sum>j\<in>J. p j t) = (\<Sum>i\<le>n. c i * t ^ i)"
  using assms
proof (induction J rule: finite_induct)
  case empty
  from polyfun_const [of 0 n] show ?case by simp
next
  case (insert j J)
  have "\<exists>c. \<forall>t. p j t + (\<Sum>j\<in>J. p j t) = (\<Sum>i\<le>n. c i * t ^ i)"
    by (rule polyfun_add) (use insert in auto)
  with insert.hyps show ?case by simp
qed


lemma polyfun_many_roots:
  fixes e :: "nat \<Rightarrow> real"
  assumes "finite R" and "n < card R" and "\<And>u. u \<in> R \<Longrightarrow> (\<Sum>i\<le>n. e i * u ^ i) = 0"
  shows "(\<Sum>i\<le>n. e i * t ^ i) = 0"
proof -
  have "\<forall>i\<le>n. e i = 0"
  proof (rule ccontr)
    assume "\<not> (\<forall>i\<le>n. e i = 0)"
    then obtain i where i: "e i \<noteq> 0" "i \<le> n" by blast
    from polyfun_rootbound [of e i n, OF this]
    have fin: "finite {z. (\<Sum>i\<le>n. e i * z ^ i) = 0}"
      and le: "card {z. (\<Sum>i\<le>n. e i * z ^ i) = 0} \<le> n"
      by blast+
    from assms(3) have "R \<subseteq> {z. (\<Sum>i\<le>n. e i * z ^ i) = 0}" by blast
    with fin have "card R \<le> card {z. (\<Sum>i\<le>n. e i * z ^ i) = 0}"
      by (intro card_mono)
    with le assms(2) show False by linarith
  qed
  then show ?thesis by simp
qed

lemma lagrange_real:
  fixes a c :: "nat \<Rightarrow> real"
  assumes inj: "inj_on a {..<k}" and pos: "0 < k"
  shows "(\<Sum>j<k. (\<Sum>i<k. c i * a j ^ i) * (\<Prod>m\<in>{..<k} - {j}. t - a m)
                   / (\<Prod>m\<in>{..<k} - {j}. a j - a m))
         = (\<Sum>i<k. c i * t ^ i)"
proof -
  define P where "P u = (\<Sum>i<k. c i * u ^ i)" for u
  define D where "D j = (\<Prod>m\<in>{..<k} - {j}. a j - a m)" for j
  define L where "L j u = (\<Prod>m\<in>{..<k} - {j}. u - a m)" for j u
  define h where "h u = P u + (- 1) * (\<Sum>j\<in>{..<k}. (P (a j) / D j) * L j u)" for u
  from pos obtain n where k: "k = Suc n" by (cases k) auto
  have D_nz: "D j \<noteq> 0" if "j < k" for j
  proof -
    have "a j - a m \<noteq> 0" if "m \<in> {..<k} - {j}" for m
    proof
      assume "a j - a m = 0"
      then have "a j = a m" by simp
      with inj \<open>j < k\<close> that have "j = m"
        by (simp add: inj_on_def)
      with that show False by simp
    qed
    then show ?thesis
      unfolding D_def by (simp del: right_minus_eq)
  qed
  have P_poly: "\<exists>e. \<forall>u. P u = (\<Sum>i\<le>n. e i * u ^ i)"
    unfolding P_def k lessThan_Suc_atMost by blast
  have L_poly: "\<exists>e. \<forall>u. L j u = (\<Sum>i\<le>n. e i * u ^ i)" if "j \<in> {..<k}" for j
  proof -
    from that have "card ({..<k} - {j}) = n"
      by (simp add: k)
    with polyfun_prod_linear [of "{..<k} - {j}" a] show ?thesis
      by (simp add: L_def)
  qed
  have "\<exists>e. \<forall>u. (\<Sum>j\<in>{..<k}. (P (a j) / D j) * L j u) = (\<Sum>i\<le>n. e i * u ^ i)"
  proof (rule polyfun_sum)
    show "finite {..<k}" by simp
  next
    fix j assume "j \<in> {..<k}"
    from L_poly [OF this] show "\<exists>e. \<forall>u. (P (a j) / D j) * L j u = (\<Sum>i\<le>n. e i * u ^ i)"
      by (rule polyfun_scale)
  qed
  then have "\<exists>e. \<forall>u. (- 1) * (\<Sum>j\<in>{..<k}. (P (a j) / D j) * L j u) = (\<Sum>i\<le>n. e i * u ^ i)"
    by (rule polyfun_scale)
  with P_poly have "\<exists>e. \<forall>u. h u = (\<Sum>i\<le>n. e i * u ^ i)"
    unfolding h_def by (rule polyfun_add)
  then obtain e where e: "\<And>u. h u = (\<Sum>i\<le>n. e i * u ^ i)" by blast
  have root: "h (a i) = 0" if "i < k" for i
  proof -
    have "(P (a j) / D j) * L j (a i) = (if j = i then P (a i) else 0)" if "j \<in> {..<k}" for j
    proof (cases "j = i")
      case True
      with D_nz [OF \<open>i < k\<close>] show ?thesis
        by (simp add: L_def D_def)
    next
      case False
      with \<open>i < k\<close> have "i \<in> {..<k} - {j}" by simp
      then have "L j (a i) = 0"
        unfolding L_def by (intro prod_zero) auto
      with False show ?thesis by simp
    qed
    then have "(\<Sum>j\<in>{..<k}. (P (a j) / D j) * L j (a i)) = (\<Sum>j\<in>{..<k}. if j = i then P (a i) else 0)"
      by (rule sum.cong [OF refl])
    also from \<open>i < k\<close> have "\<dots> = P (a i)"
      by simp
    finally show ?thesis
      by (simp add: h_def)
  qed
  have "card (a ` {..<k}) = k"
    using inj by (simp add: card_image)
  then have many: "n < card (a ` {..<k})"
    by (simp add: k)
  have zero: "(\<Sum>i\<le>n. e i * u ^ i) = 0" if "u \<in> a ` {..<k}" for u
  proof -
    from that obtain i where "i < k" "u = a i" by auto
    with root [of i] show ?thesis by (simp only: e [symmetric])
  qed
  have "finite (a ` {..<k})" by simp
  from this many zero have "(\<Sum>i\<le>n. e i * t ^ i) = 0"
    by (rule polyfun_many_roots)
  then have "h t = 0" by (simp only: e)
  then have "(\<Sum>j<k. (P (a j) / D j) * L j t) = P t"
    unfolding h_def by linarith
  moreover have "(P (a j) / D j) * L j t = P (a j) * L j t / D j" for j
    by simp
  ultimately have "(\<Sum>j<k. P (a j) * L j t / D j) = P t"
    by (simp only:)
  then show ?thesis
    unfolding P_def D_def L_def .
qed


lemma poly_eval_sum: "poly_eval cs a = (\<Sum>i<length cs. cs ! i * a ^ i)"
proof (induction cs)
  case Nil
  then show ?case by simp
next
  case (Cons c cs)
  have "(\<Sum>i<length (c # cs). (c # cs) ! i * a ^ i) = c + (\<Sum>i<length cs. cs ! i * a ^ Suc i)"
    by (simp add: sum.lessThan_Suc_shift del: power_Suc sum.lessThan_Suc)
  also have "(\<Sum>i<length cs. cs ! i * a ^ Suc i) = a * (\<Sum>i<length cs. cs ! i * a ^ i)"
    by (simp add: sum_distrib_left mult_ac)
  finally show ?case
    by (simp add: Cons.IH)
qed

lemma poly_eval_padded:
  assumes "length cs \<le> k"
  shows "poly_eval cs a = (\<Sum>i<k. (if i < length cs then cs ! i else 0) * a ^ i)"
proof -
  have "(\<Sum>i<k. (if i < length cs then cs ! i else 0) * a ^ i)
        = (\<Sum>i\<in>{..<length cs}. (if i < length cs then cs ! i else 0) * a ^ i)"
    using assms by (intro sum.mono_neutral_right) auto
  also have "\<dots> = (\<Sum>i<length cs. cs ! i * a ^ i)"
    by (rule sum.cong) simp_all
  finally show ?thesis
    by (simp add: poly_eval_sum)
qed

lemma shares_of_nth:
  "j < length as \<Longrightarrow> x (shares_of cs as ! j) = as ! j \<and> y (shares_of cs as ! j) = poly_eval cs (as ! j)"
  by (simp add: shares_of_def)

lemma shares_of_abscissas: "map x (shares_of cs as) = as" "length (shares_of cs as) = length as"
  by (simp_all add: shares_of_def comp_def)

lemma findSecret_exact_constant_term:
  assumes dist: "distinct as" and deg: "length cs \<le> length as"
    and exact: "\<forall>j < length as. denominator_at (shares_of cs as) j
                  dvd y (shares_of cs as ! j) * numerator_at (shares_of cs as) j"
  shows "findSecret (shares_of cs as) = Inr (poly_eval cs 0)"
proof -
  define ps where "ps = shares_of cs as"
  define k where "k = length as"
  have len: "length ps = k" and xs: "map x ps = as"
    by (simp_all add: ps_def k_def shares_of_abscissas)
  have nth: "x (ps ! j) = as ! j" "y (ps ! j) = poly_eval cs (as ! j)" if "j < k" for j
    using that shares_of_nth [of j as cs] by (simp_all add: ps_def k_def)
  from dist have res: "findSecret ps = Inr (\<Sum>j<k. term_at ps j)"
    by (simp add: findSecret_char xs len)
  have "(\<Sum>j<k. term_at ps j) = poly_eval cs 0"
  proof (cases "k = 0")
    case True
    with deg have "cs = []" by (simp add: k_def)
    with True show ?thesis by simp
  next
    case False
    define a where "a j = real_of_int (as ! j)" for j
    define c where "c i = real_of_int (if i < length cs then cs ! i else 0)" for i
    have inj: "inj_on a {..<k}"
    proof (rule inj_onI)
      fix i j assume "i \<in> {..<k}" "j \<in> {..<k}" "a i = a j"
      then have "as ! i = as ! j" "i < length as" "j < length as"
        by (simp_all add: a_def k_def)
      with dist show "i = j"
        by (simp add: nth_eq_iff_index_eq)
    qed
    have evalP: "(\<Sum>i<k. c i * real_of_int u ^ i) = real_of_int (poly_eval cs u)" for u
      using deg by (simp add: poly_eval_padded [of cs k] c_def k_def)
    have num: "(\<Prod>m\<in>{..<k} - {j}. 0 - a m) = real_of_int (numerator_at ps j)" if "j < k" for j
    proof -
      have "(\<Prod>m\<in>{..<k} - {j}. 0 - a m) = (\<Prod>m\<in>{..<k} - {j}. real_of_int (- x (ps ! m)))"
        by (rule prod.cong) (simp_all add: a_def nth)
      then show ?thesis
        by (simp add: numerator_at_def len)
    qed
    have den: "(\<Prod>m\<in>{..<k} - {j}. a j - a m) = real_of_int (denominator_at ps j)" if "j < k" for j
    proof -
      have "(\<Prod>m\<in>{..<k} - {j}. a j - a m)
            = (\<Prod>m\<in>{..<k} - {j}. real_of_int (x (ps ! j) - x (ps ! m)))"
        by (rule prod.cong) (simp_all add: a_def nth that)
      then show ?thesis
        by (simp add: denominator_at_def len)
    qed
    have quotient: "real_of_int (term_at ps j) =
        (\<Sum>i<k. c i * a j ^ i) * (\<Prod>m\<in>{..<k} - {j}. 0 - a m) / (\<Prod>m\<in>{..<k} - {j}. a j - a m)"
      if "j < k" for j
    proof -
      from exact that have "denominator_at ps j dvd y (ps ! j) * numerator_at ps j"
        by (simp add: ps_def k_def)
      then have "term_at ps j * denominator_at ps j = y (ps ! j) * numerator_at ps j"
        unfolding term_at_def by (rule bigint_quotient_exact)
      then have "real_of_int (term_at ps j) * real_of_int (denominator_at ps j)
                 = real_of_int (y (ps ! j)) * real_of_int (numerator_at ps j)"
        by (simp only: of_int_mult [symmetric])
      moreover from dist that collision_iff [of ps] have "denominator_at ps j \<noteq> 0"
        by (auto simp: xs len)
      ultimately have "real_of_int (term_at ps j)
          = real_of_int (y (ps ! j)) * real_of_int (numerator_at ps j) / real_of_int (denominator_at ps j)"
        by (simp add: field_simps)
      also have "real_of_int (y (ps ! j)) = (\<Sum>i<k. c i * a j ^ i)"
        using that by (simp only: a_def evalP nth)
      finally show ?thesis
        by (simp only: num [OF that] den [OF that])
    qed
    have "real_of_int (\<Sum>j<k. term_at ps j) = (\<Sum>j<k. real_of_int (term_at ps j))"
      by simp
    also have "\<dots> = (\<Sum>j<k. (\<Sum>i<k. c i * a j ^ i) * (\<Prod>m\<in>{..<k} - {j}. 0 - a m)
                          / (\<Prod>m\<in>{..<k} - {j}. a j - a m))"
      by (rule sum.cong) (simp_all only: quotient lessThan_iff)
    also from False have "\<dots> = (\<Sum>i<k. c i * 0 ^ i)"
      by (intro lagrange_real [OF inj]) simp
    also have "\<dots> = real_of_int (poly_eval cs 0)"
      using evalP [of 0] by simp
    finally show ?thesis
      by (simp only: of_int_eq_iff)
  qed
  with res show ?thesis
    by (simp add: ps_def)
qed

text \<open>
  The example of the specification: any two of the shares (1, 5), (2, 7), (3, 9) of
  \<open>3 + 2x\<close> give 3, and the three shares (1, 3), (2, 6), (3, 9) of \<open>3x\<close> give 0.
\<close>

lemma interpolate_example_subsets:
  "findSecret [\<lparr>x = 1, y = 5\<rparr>, \<lparr>x = 2, y = 7\<rparr>] = Inr 3 \<and>
   findSecret [\<lparr>x = 1, y = 5\<rparr>, \<lparr>x = 3, y = 9\<rparr>] = Inr 3 \<and>
   findSecret [\<lparr>x = 2, y = 7\<rparr>, \<lparr>x = 3, y = 9\<rparr>] = Inr 3 \<and>
   findSecret [\<lparr>x = 1, y = 3\<rparr>, \<lparr>x = 2, y = 6\<rparr>, \<lparr>x = 3, y = 9\<rparr>] = Inr 0"
  by code_simp

section \<open>Claims about the interpolator\<close>

text \<open>
  Claim C10. On the empty list of points the interpolator returns 0, the sum of no
  term; on a single point \<open>(a, b)\<close> it returns \<open>b\<close>; neither raises an error.
\<close>

theorem interpolate_empty_single:
  "findSecret [] = Inr 0 \<and> findSecret [\<lparr>x = a, y = b\<rparr>] = Inr b"
proof
  show "findSecret [] = Inr 0"
    by (simp add: findSecret_def)
next
  have "bigint_quotient b 1 = b"
    by (simp add: bigint_quotient_def sgn_mult_abs)
  then show "findSecret [\<lparr>x = a, y = b\<rparr>] = Inr b"
    by (simp add: findSecret_def basis_loop_def basis_step_def bigint_div_def)
qed

theorem interpolate_empty_single_witness:
  "findSecret [] = Inr 0 \<and> findSecret [\<lparr>x = 4, y = 17\<rparr>] = Inr 17"
  by (rule interpolate_empty_single [of 4 17])

text \<open>
  Claim C5. When two points of the list, at different positions, share their abscissa,
  the interpolator returns no number: the denominator of the colliding term is 0 and the
  bigint division raises its division-by-zero error, which ends the computation.
\<close>

theorem interpolate_duplicate_abscissa:
  assumes "i < length ps" and "j < length ps" and "i \<noteq> j"
    and "x (ps ! i) = x (ps ! j)"
  shows "findSecret ps = Inl RangeError_DivisionByZero"
proof -
  from assms have "\<not> distinct (map x ps)"
    by (auto simp: distinct_conv_nth)
  then show ?thesis
    by (simp add: findSecret_char)
qed

theorem interpolate_duplicate_abscissa_witness:
  "findSecret [\<lparr>x = 1, y = 5\<rparr>, \<lparr>x = 2, y = 7\<rparr>, \<lparr>x = 1, y = 9\<rparr>] = Inl RangeError_DivisionByZero"
  by (rule interpolate_duplicate_abscissa [of 0 _ 2]) simp_all

text \<open>
  Claim C8, as stated, fails in one word: the division of a term need not be exact. For
  the points (1, 1), (2, 1), (4, 1) the first term divides 8 by 3 and is 2.
\<close>

theorem interpolate_exact_division_counterexample:
  "distinct (map x [\<lparr>x = 1, y = 1\<rparr>, \<lparr>x = 2, y = 1\<rparr>, \<lparr>x = 4, y = 1\<rparr>]) \<and>
   y ([\<lparr>x = 1, y = 1\<rparr>, \<lparr>x = 2, y = 1\<rparr>, \<lparr>x = 4, y = 1\<rparr>] ! 0) *
     numerator_at [\<lparr>x = 1, y = 1\<rparr>, \<lparr>x = 2, y = 1\<rparr>, \<lparr>x = 4, y = 1\<rparr>] 0 = 8 \<and>
   denominator_at [\<lparr>x = 1, y = 1\<rparr>, \<lparr>x = 2, y = 1\<rparr>, \<lparr>x = 4, y = 1\<rparr>] 0 = 3 \<and>
   \<not> (3 dvd (8 :: int)) \<and>
   term_at [\<lparr>x = 1, y = 1\<rparr>, \<lparr>x = 2, y = 1\<rparr>, \<lparr>x = 4, y = 1\<rparr>] 0 = 2 \<and>
   (2 :: int) * 3 \<noteq> 8 \<and>
   findSecret [\<lparr>x = 1, y = 1\<rparr>, \<lparr>x = 2, y = 1\<rparr>, \<lparr>x = 4, y = 1\<rparr>] = Inr 0"
  by code_simp

text \<open>
  Claim C8, amended. For points with pairwise distinct abscissas the interpolator returns
  the sum of the terms, and the term of index \<open>j\<close> is one bigint division, of the full
  product \<open>y\<^sub>j\<close> times the product of all \<open>- x\<^sub>m\<close> by the full product of all
  \<open>x\<^sub>j - x\<^sub>m\<close> (\<open>m \<noteq> j\<close>); the divisor is not 0, and whenever it divides the
  numerator the quotient is the exact one.
\<close>

theorem interpolate_terms:
  assumes "distinct (map x ps)"
  shows "findSecret ps = Inr (\<Sum>j < length ps. term_at ps j) \<and>
         (\<forall>j < length ps.
            term_at ps j = bigint_quotient (y (ps ! j) * (\<Prod>m \<in> {..<length ps} - {j}. - x (ps ! m)))
                             (\<Prod>m \<in> {..<length ps} - {j}. x (ps ! j) - x (ps ! m)) \<and>
            (\<Prod>m \<in> {..<length ps} - {j}. x (ps ! j) - x (ps ! m)) \<noteq> 0 \<and>
            (denominator_at ps j dvd y (ps ! j) * numerator_at ps j \<longrightarrow>
               term_at ps j * denominator_at ps j = y (ps ! j) * numerator_at ps j))"
proof (intro conjI allI impI)
  from assms show "findSecret ps = Inr (\<Sum>j < length ps. term_at ps j)"
    by (simp add: findSecret_char)
next
  fix j
  show "term_at ps j = bigint_quotient (y (ps ! j) * (\<Prod>m \<in> {..<length ps} - {j}. - x (ps ! m)))
                             (\<Prod>m \<in> {..<length ps} - {j}. x (ps ! j) - x (ps ! m))"
    by (simp only: term_at_def numerator_at_def denominator_at_def)
next
  fix j
  assume "j < length ps"
  from assms collision_iff [of ps]
  have "\<not> (\<exists>j \<in> set [0..<length ps]. denominator_at ps j = 0)"
    by blast
  with \<open>j < length ps\<close> have "denominator_at ps j \<noteq> 0"
    by auto
  then show "(\<Prod>m \<in> {..<length ps} - {j}. x (ps ! j) - x (ps ! m)) \<noteq> 0"
    unfolding denominator_at_def .
next
  fix j
  assume "denominator_at ps j dvd y (ps ! j) * numerator_at ps j"
  then show "term_at ps j * denominator_at ps j = y (ps ! j) * numerator_at ps j"
    unfolding term_at_def by (rule bigint_quotient_exact)
qed

theorem interpolate_terms_witness:
  "distinct (map x [\<lparr>x = 1, y = 5\<rparr>, \<lparr>x = 2, y = 7\<rparr>]) \<and>
   findSecret [\<lparr>x = 1, y = 5\<rparr>, \<lparr>x = 2, y = 7\<rparr>] = Inr 3"
proof -
  let ?ps = "[\<lparr>x = 1, y = 5\<rparr>, \<lparr>x = 2, y = 7\<rparr>]"
  have d: "distinct (map x ?ps)" by simp
  have v: "(\<Sum>j < length ?ps. term_at ?ps j) = 3" by code_simp
  from interpolate_terms [OF d] have "findSecret ?ps = Inr (\<Sum>j < length ?ps. term_at ?ps j)"
    by (rule conjunct1)
  then have "findSecret ?ps = Inr 3"
    by (simp only: v)
  with d show ?thesis by (intro conjI)
qed

text \<open>
  Claim C4, as stated, fails: for the points (1, 1) and (3, 2) the first term is
  \<open>-3\<close> over \<open>-2\<close>, which is not whole, and the interpolator returns a number, 0,
  without any error.
\<close>

theorem interpolate_inexact_counterexample:
  "distinct (map x [\<lparr>x = 1, y = 1\<rparr>, \<lparr>x = 3, y = 2\<rparr>]) \<and>
   \<not> (denominator_at [\<lparr>x = 1, y = 1\<rparr>, \<lparr>x = 3, y = 2\<rparr>] 0
        dvd y ([\<lparr>x = 1, y = 1\<rparr>, \<lparr>x = 3, y = 2\<rparr>] ! 0) *
            numerator_at [\<lparr>x = 1, y = 1\<rparr>, \<lparr>x = 3, y = 2\<rparr>] 0) \<and>
   findSecret [\<lparr>x = 1, y = 1\<rparr>, \<lparr>x = 3, y = 2\<rparr>] = Inr 0"
  by code_simp

text \<open>
  Claim C4, amended. For points with pairwise distinct abscissas the interpolator never
  fails, whether or not every numerator is a multiple of its denominator: it returns a
  number. The only error it can raise is the division by zero, and it raises it only
  when two abscissas coincide.
\<close>

theorem interpolate_no_inexact_error:
  "(distinct (map x ps) \<longrightarrow> (\<exists>v. findSecret ps = Inr v)) \<and>
   (\<forall>e. findSecret ps = Inl e \<longrightarrow> e = RangeError_DivisionByZero \<and> \<not> distinct (map x ps))"
  by (simp add: findSecret_char)

theorem interpolate_no_inexact_error_witness:
  "distinct (map x [\<lparr>x = 1, y = 1\<rparr>, \<lparr>x = 3, y = 2\<rparr>]) \<and>
   \<not> (denominator_at [\<lparr>x = 1, y = 1\<rparr>, \<lparr>x = 3, y = 2\<rparr>] 0
        dvd y ([\<lparr>x = 1, y = 1\<rparr>, \<lparr>x = 3, y = 2\<rparr>] ! 0) *
            numerator_at [\<lparr>x = 1, y = 1\<rparr>, \<lparr>x = 3, y = 2\<rparr>] 0) \<and>
   (\<exists>v. findSecret [\<lparr>x = 1, y = 1\<rparr>, \<lparr>x = 3, y = 2\<rparr>] = Inr v)"
proof -
  let ?ps = "[\<lparr>x = 1, y = 1\<rparr>, \<lparr>x = 3, y = 2\<rparr>]"
  have d: "distinct (map x ?ps)" by simp
  have n: "\<not> (denominator_at ?ps 0 dvd y (?ps ! 0) * numerator_at ?ps 0)" by code_simp
  from interpolate_no_inexact_error [of ?ps]
  have "distinct (map x ?ps) \<longrightarrow> (\<exists>v. findSecret ?ps = Inr v)"
    by (rule conjunct1)
  from this d have "\<exists>v. findSecret ?ps = Inr v"
    by (rule mp)
  with d n show ?thesis by (intro conjI)
qed

text \<open>
  Claim C1 says that the shares of an integer polynomial of degree below \<open>k\<close> at
  \<open>k\<close> distinct abscissas give back its constant term. The code does not do so: on the
  shares of the constant polynomial 1 at 1, 2 and 4, and on those of \<open>1 + x\<^sup>2\<close> at
  the same abscissas, it returns 0 where the constant term is 1, because the terms
  \<open>8 / 3\<close> and \<open>2 / 6\<close> (and \<open>16 / 3\<close>, \<open>34 / 6\<close>) are rounded toward zero one by one.
\<close>

theorem interpolate_not_constant_term:
  "distinct [1, 2, 4 :: int] \<and>
   poly_eval [1] 0 = 1 \<and>
   shares_of [1] [1, 2, 4] = [\<lparr>x = 1, y = 1\<rparr>, \<lparr>x = 2, y = 1\<rparr>, \<lparr>x = 4, y = 1\<rparr>] \<and>
   findSecret (shares_of [1] [1, 2, 4]) = Inr 0 \<and>
   poly_eval [1, 0, 1] 0 = 1 \<and>
   shares_of [1, 0, 1] [1, 2, 4] = [\<lparr>x = 1, y = 2\<rparr>, \<lparr>x = 2, y = 5\<rparr>, \<lparr>x = 4, y = 17\<rparr>] \<and>
   findSecret (shares_of [1, 0, 1] [1, 2, 4]) = Inr 0 \<and>
   main [(''keys'', Keys 3 3), (''1'', Share ''10'' ''2''), (''2'', Share ''10'' ''5''),
         (''4'', Share ''10'' ''17'')]
     = Inr ([\<lparr>x = 1, y = 2\<rparr>, \<lparr>x = 2, y = 5\<rparr>, \<lparr>x = 4, y = 17\<rparr>], 0)"
  by code_simp

section \<open>Properties of the selection of points\<close>



































text \<open>
  The number that \<open>parseInt\<close> returns is a double: an integer above \<open>2 ^ 53\<close> is
  rounded, and a very long one is \<open>Infinity\<close>.
\<close>

lemma parseInt10_rounds:
  "parseInt10 ''37'' = Integer 37 \<and>
   parseInt10 '' -12px'' = Integer (- 12) \<and>
   parseInt10 ''x'' = NotInteger \<and>
   parseInt10 ''9007199254740993'' = Integer 9007199254740992 \<and>
   parseInt10 ''9007199254740995'' = Integer 9007199254740996 \<and>
   parseInt10 (replicate 309 CHR ''9'') = NotInteger"
  by code_simp

section \<open>Claims about the selection of points\<close>




end
